theory Spec2Isabelle
  imports Complex_Main "HOL-Library.AList"
begin

section \<open>Python arithmetic used by the tools\<close>

text \<open>
  The two scripts \<^verbatim>\<open>tools/midi_to_buzzer.py\<close> and \<^verbatim>\<open>tools/simplify_header.py\<close> work on
  Python integers and on floats obtained by true division of integers. Integers are
  modelled as \<^typ>\<open>int\<close>. A float is modelled by the rational number it stands for, so
  true division is exact division; this agrees with the interpreter whenever the quotient
  is representable, which is the case at every concrete input evaluated below.
\<close>

datatype py_error = ZeroDivisionError | ValueError | KeyError

text \<open>\<^verbatim>\<open>a / b\<close>: true division, raising on a zero divisor.\<close>

definition py_truediv :: "rat \<Rightarrow> rat \<Rightarrow> py_error + rat" where
  "py_truediv a b = (if b = 0 then Inl ZeroDivisionError else Inr (a / b))"

text \<open>
  \<^verbatim>\<open>round(x)\<close> of Python 3 on a float: the nearest integer, a tie going to the even
  neighbour.
\<close>

definition py_round :: "rat \<Rightarrow> int" where
  "py_round x =
     (let f = \<lfloor>x\<rfloor>; r = x - of_int f
      in if r < 1 / 2 then f
         else if 1 / 2 < r then f + 1
         else if even f then f else f + 1)"

text \<open>\<^verbatim>\<open>int(x)\<close> on a float: truncation towards zero.\<close>

definition py_int :: "rat \<Rightarrow> int" where
  "py_int x = (if 0 \<le> x then \<lfloor>x\<rfloor> else \<lceil>x\<rceil>)"

text \<open>
  Rounding to the nearest integer with ties away from zero, as the specification words
  it; used only to compare with \<^const>\<open>py_round\<close>.
\<close>

definition round_half_away :: "rat \<Rightarrow> int" where
  "round_half_away x = (if 0 \<le> x then \<lfloor>x + 1 / 2\<rfloor> else \<lceil>x - 1 / 2\<rceil>)"

text \<open>Slices \<^verbatim>\<open>xs[:k]\<close> and \<^verbatim>\<open>xs[k:]\<close>; a negative \<open>k\<close> counts from the end.\<close>

definition py_slice_to :: "'a list \<Rightarrow> int \<Rightarrow> 'a list" where
  "py_slice_to xs k =
     (if 0 \<le> k then take (nat k) xs else take (nat (int (length xs) + k)) xs)"

definition py_slice_from :: "'a list \<Rightarrow> int \<Rightarrow> 'a list" where
  "py_slice_from xs k =
     (if 0 \<le> k then drop (nat k) xs else drop (nat (int (length xs) + k)) xs)"

section \<open>Tick to millisecond conversion\<close>

text \<open>
  \<^verbatim>\<open>ticks_to_ms(ticks, tempo, ticks_per_beat)\<close> of \<^verbatim>\<open>midi_to_buzzer.py\<close>: a missing
  tempo is 500000, \<^verbatim>\<open>micros = (ticks * tempo) / ticks_per_beat\<close>, and the result is
  \<^verbatim>\<open>int(round(micros / 1000.0))\<close>.
\<close>

definition ticks_to_ms :: "int \<Rightarrow> int option \<Rightarrow> int \<Rightarrow> py_error + int" where
  "ticks_to_ms ticks tempo ticks_per_beat =
     (let tempo' = (case tempo of None \<Rightarrow> 500000 | Some t \<Rightarrow> t)
      in case py_truediv (of_int (ticks * tempo')) (of_int ticks_per_beat) of
           Inl e \<Rightarrow> Inl e
         | Inr micros \<Rightarrow> Inr (py_round (micros / 1000)))"

section \<open>The quantizer: \<^verbatim>\<open>simplify_notes\<close>\<close>

text \<open>A note is a pair (frequency, duration in ms); frequency 0 is a rest.\<close>

type_synonym note_t = "int \<times> int"

text \<open>
  First loop: adjacent notes of equal frequency are merged. \<open>merged\<close> is the list built
  so far, extended or updated at its end.
\<close>

fun merge_loop :: "note_t list \<Rightarrow> note_t list \<Rightarrow> note_t list" where
  "merge_loop merged [] = merged"
| "merge_loop merged ((f, d) # rest) =
     merge_loop
       (if merged \<noteq> [] \<and> fst (last merged) = f
        then butlast merged @ [(f, snd (last merged) + d)]
        else merged @ [(f, d)])
       rest"


text \<open>
  Second loop: quantize, and add a duration below \<open>min_ms\<close> to the previous kept entry,
  or start the list with a rest of that duration.
\<close>

fun quant_loop :: "rat \<Rightarrow> int \<Rightarrow> note_t list \<Rightarrow> note_t list \<Rightarrow> py_error + note_t list" where
  "quant_loop unit min_ms quant [] = Inr quant"
| "quant_loop unit min_ms quant ((f, d) # rest) =
     (case py_truediv (of_int d) unit of
        Inl e \<Rightarrow> Inl e
      | Inr x \<Rightarrow>
          (let q = py_round x;
               q' = (if q \<le> 0 then 1 else q);
               d2 = py_int (of_int q' * unit)
           in quant_loop unit min_ms
                (if d2 < min_ms
                 then (if quant \<noteq> []
                       then butlast quant @ [(fst (last quant), snd (last quant) + d2)]
                       else quant @ [(0, d2)])
                 else quant @ [(f, d2)])
                rest))"

text \<open>Last step: at most \<open>max_notes\<close> entries, the tail added to the last kept one.\<close>

definition bound_count :: "note_t list \<Rightarrow> int \<Rightarrow> note_t list" where
  "bound_count quant max_notes =
     (if max_notes < int (length quant)
      then (let keep = py_slice_to quant (max_notes - 1);
                tail = py_slice_from quant (max_notes - 1);
                tail_time = sum_list (map snd tail)
            in if keep \<noteq> []
               then butlast keep @ [(fst (last keep), snd (last keep) + tail_time)]
               else [(0, tail_time)])
      else quant)"

text \<open>The three passes, shared by both scripts once \<open>unit\<close> is known.\<close>

definition simplify_passes :: "note_t list \<Rightarrow> rat \<Rightarrow> int \<Rightarrow> int \<Rightarrow> py_error + note_t list" where
  "simplify_passes notes unit min_ms max_notes =
     (case quant_loop unit min_ms [] (merge_loop [] notes) of
        Inl e \<Rightarrow> Inl e
      | Inr quant \<Rightarrow> Inr (bound_count quant max_notes))"

text \<open>
  \<^verbatim>\<open>simplify_notes(notes, quarter_ms, denom, min_ms, max_notes)\<close> of
  \<^verbatim>\<open>midi_to_buzzer.py\<close>, where \<^verbatim>\<open>unit = quarter_ms / denom\<close> is a float.
\<close>

definition simplify_notes :: "note_t list \<Rightarrow> rat \<Rightarrow> int \<Rightarrow> int \<Rightarrow> int \<Rightarrow> py_error + note_t list" where
  "simplify_notes notes quarter_ms denom min_ms max_notes =
     (if notes = [] then Inr []
      else case py_truediv quarter_ms (of_int denom) of
             Inl e \<Rightarrow> Inl e
           | Inr unit \<Rightarrow> simplify_passes notes unit min_ms max_notes)"

text \<open>
  \<^verbatim>\<open>simplify_notes(notes, unit_ms, min_ms, max_notes)\<close> of \<^verbatim>\<open>simplify_header.py\<close>, where
  the unit is an integer number of milliseconds.
\<close>

definition simplify_notes_header :: "note_t list \<Rightarrow> int \<Rightarrow> int \<Rightarrow> int \<Rightarrow> py_error + note_t list" where
  "simplify_notes_header notes unit_ms min_ms max_notes =
     (if notes = [] then Inr []
      else simplify_passes notes (of_int unit_ms) min_ms max_notes)"


section \<open>The monophonic reducer: \<^verbatim>\<open>extract_monophonic\<close>\<close>

text \<open>
  A MIDI message as the script reads it: its delta time, and for the three types the
  script looks at, the fields it uses. Every other message type is \<open>Other_msg\<close>.
\<close>

datatype msg =
    Note_on (msg_time: int) (msg_note: int) (msg_velocity: int)
  | Note_off (msg_time: int) (msg_note: int) (msg_velocity: int)
  | Set_tempo (msg_time: int) (msg_tempo: int)
  | Other_msg (msg_time: int)

record midi_file =
  ticks_per_beat :: int
  tracks :: "msg list list"

text \<open>A closed note: the tuple \<^verbatim>\<open>(note, start_tick, end_tick, velocity)\<close>.\<close>

type_synonym interval = "int \<times> int \<times> int \<times> int"

definition iv_note :: "interval \<Rightarrow> int" where
  "iv_note x = fst x"

definition iv_start :: "interval \<Rightarrow> int" where
  "iv_start x = fst (snd x)"

definition iv_end :: "interval \<Rightarrow> int" where
  "iv_end x = fst (snd (snd x))"

definition iv_velocity :: "interval \<Rightarrow> int" where
  "iv_velocity x = snd (snd (snd x))"

text \<open>Step 1: absolute ticks along one track, then all tracks sorted by tick (stably).\<close>

fun abs_track :: "int \<Rightarrow> msg list \<Rightarrow> (int \<times> msg) list" where
  "abs_track abs_ticks [] = []"
| "abs_track abs_ticks (m # ms) =
     (abs_ticks + msg_time m, m) # abs_track (abs_ticks + msg_time m) ms"

definition merged_events :: "msg list list \<Rightarrow> (int \<times> msg) list" where
  "merged_events trks = sort_key fst (concat (map (abs_track 0) trks))"

text \<open>
  Step 2: one iteration of the event loop on the state \<open>(tempo, active, results)\<close>.
  A \<^verbatim>\<open>set_tempo\<close> overwrites the tempo; a \<^verbatim>\<open>note_on\<close> with positive velocity enters the
  note in \<open>active\<close>; a \<^verbatim>\<open>note_off\<close>, or a \<^verbatim>\<open>note_on\<close> with velocity 0, closes the note if
  it is active and does nothing otherwise.
\<close>

type_synonym reducer_state = "int \<times> (int \<rightharpoonup> int \<times> int) \<times> interval list"

definition note_end :: "int \<Rightarrow> int \<Rightarrow> (int \<rightharpoonup> int \<times> int) \<Rightarrow> interval list
    \<Rightarrow> (int \<rightharpoonup> int \<times> int) \<times> interval list" where
  "note_end abs_tick n active results =
     (case active n of
        None \<Rightarrow> (active, results)
      | Some (start_tick, vel) \<Rightarrow> (active(n := None), results @ [(n, start_tick, abs_tick, vel)]))"

fun handle_event :: "reducer_state \<Rightarrow> int \<times> msg \<Rightarrow> reducer_state" where
  "handle_event (tempo, active, results) (abs_tick, Set_tempo t new_tempo) =
     (new_tempo, active, results)"
| "handle_event (tempo, active, results) (abs_tick, Note_on t n v) =
     (if 0 < v then (tempo, active(n \<mapsto> (abs_tick, v)), results)
      else if v = 0 then (tempo, note_end abs_tick n active results)
      else (tempo, active, results))"
| "handle_event (tempo, active, results) (abs_tick, Note_off t n v) =
     (tempo, note_end abs_tick n active results)"
| "handle_event (tempo, active, results) (abs_tick, Other_msg t) =
     (tempo, active, results)"

text \<open>The messages that end a note: the condition of the loop's \<^verbatim>\<open>elif\<close>.\<close>

definition is_note_end :: "msg \<Rightarrow> bool" where
  "is_note_end m = (case m of Note_off t n v \<Rightarrow> True | Note_on t n v \<Rightarrow> v = 0 | _ \<Rightarrow> False)"

definition event_loop :: "(int \<times> msg) list \<Rightarrow> reducer_state" where
  "event_loop events = foldl handle_event (500000, Map.empty, []) events"

text \<open>
  Step 3: the closed notes sorted by start tick, grouped in the dictionary \<open>by_start\<close>
  (kept here as an association list in insertion order);
  \<^verbatim>\<open>by_start.setdefault(s, []).append(x)\<close> is one update of it.
\<close>

definition by_start_add :: "(int \<times> interval list) list \<Rightarrow> interval \<Rightarrow> (int \<times> interval list) list" where
  "by_start_add d x =
     AList.update (iv_start x)
       ((case map_of d (iv_start x) of None \<Rightarrow> [] | Some g \<Rightarrow> g) @ [x]) d"

definition by_start :: "interval list \<Rightarrow> (int \<times> interval list) list" where
  "by_start results = foldl by_start_add [] results"

text \<open>
  \<^verbatim>\<open>max(group, key=lambda x: (x[3], x[0]))\<close>: tuples compare lexicographically, the first
  maximal element wins, and an empty argument raises \<^verbatim>\<open>ValueError\<close>.
\<close>

fun tuple_less :: "int \<times> int \<Rightarrow> int \<times> int \<Rightarrow> bool" where
  "tuple_less (a, b) (c, d) = (a < c \<or> (a = c \<and> b < d))"

definition chord_key :: "interval \<Rightarrow> int \<times> int" where
  "chord_key x = (iv_velocity x, iv_note x)"

fun py_max :: "interval list \<Rightarrow> py_error + interval" where
  "py_max [] = Inl ValueError"
| "py_max (x # xs) =
     Inr (foldl (\<lambda>best y. if tuple_less (chord_key best) (chord_key y) then y else best) x xs)"

text \<open>The loop over the sorted keys, one chosen note per key.\<close>

fun choose_loop :: "(int \<times> interval list) list \<Rightarrow> interval list \<Rightarrow> int list
    \<Rightarrow> py_error + interval list" where
  "choose_loop d timeline [] = Inr timeline"
| "choose_loop d timeline (s # sorted_keys) =
     (case map_of d s of
        None \<Rightarrow> Inl KeyError
      | Some grp \<Rightarrow>
          (case py_max grp of
             Inl e \<Rightarrow> Inl e
           | Inr chosen \<Rightarrow> choose_loop d (timeline @ [chosen]) sorted_keys))"

definition timeline_of :: "interval list \<Rightarrow> py_error + interval list" where
  "timeline_of results =
     (let d = by_start (sort_key iv_start results)
      in case choose_loop d [] (sort (map fst d)) of
           Inl e \<Rightarrow> Inl e
         | Inr timeline \<Rightarrow> Inr (sort_key iv_start timeline))"

text \<open>
  \<^verbatim>\<open>extract_monophonic(mid)\<close>: the timeline as \<^verbatim>\<open>(note, start_tick, end_tick)\<close>, the last
  tempo seen in the stream, and the file's ticks per beat.
\<close>

definition extract_monophonic :: "midi_file \<Rightarrow> py_error + (int \<times> int \<times> int) list \<times> int \<times> int" where
  "extract_monophonic mid =
     (case event_loop (merged_events (tracks mid)) of
        (tempo, active, results) \<Rightarrow>
          (case timeline_of results of
             Inl e \<Rightarrow> Inl e
           | Inr timeline \<Rightarrow>
               Inr (map (\<lambda>(n, s, e, vel). (n, s, e)) timeline, tempo, ticks_per_beat mid)))"

section \<open>From the timeline to notes: \<^verbatim>\<open>build_note_array\<close>\<close>

text \<open>
  \<^verbatim>\<open>note_to_freq\<close> rounds \<open>440 * 2 ^ ((n - 69) / 12)\<close>, a floating-point power; the
  frequency table is a parameter \<open>ntf\<close> of the model. The loop inserts a rest for a gap
  whose converted length is positive, then the note; every duration is converted with the
  one \<open>tempo\<close> the function was given.
\<close>

fun note_loop :: "(int \<Rightarrow> int) \<Rightarrow> int option \<Rightarrow> int \<Rightarrow> int \<Rightarrow> note_t list
    \<Rightarrow> (int \<times> int \<times> int) list \<Rightarrow> py_error + note_t list" where
  "note_loop ntf tempo tpb current_tick notes [] = Inr notes"
| "note_loop ntf tempo tpb current_tick notes ((n, s, e) # rest) =
     (case (if current_tick < s
            then (case ticks_to_ms (s - current_tick) tempo tpb of
                    Inl er \<Rightarrow> Inl er
                  | Inr rest_ms \<Rightarrow> Inr (if 0 < rest_ms then notes @ [(0, rest_ms)] else notes))
            else Inr notes) of
        Inl er \<Rightarrow> Inl er
      | Inr notes1 \<Rightarrow>
          (case ticks_to_ms (e - s) tempo tpb of
             Inl er \<Rightarrow> Inl er
           | Inr dur_ms \<Rightarrow> note_loop ntf tempo tpb e (notes1 @ [(ntf n, dur_ms)]) rest))"

definition build_note_array :: "(int \<Rightarrow> int) \<Rightarrow> (int \<times> int \<times> int) list \<Rightarrow> int option \<Rightarrow> int
    \<Rightarrow> py_error + note_t list" where
  "build_note_array ntf events tempo tpb =
     (case events of
        [] \<Rightarrow> Inr []
      | (n, s, e) # _ \<Rightarrow> note_loop ntf tempo tpb s [] events)"

text \<open>The first steps of \<^verbatim>\<open>main\<close>: extraction, then conversion with the returned tempo.\<close>

definition main_notes :: "(int \<Rightarrow> int) \<Rightarrow> midi_file \<Rightarrow> py_error + note_t list" where
  "main_notes ntf mid =
     (case extract_monophonic mid of
        Inl e \<Rightarrow> Inl e
      | Inr (events, tempo, tpb) \<Rightarrow> build_note_array ntf events (Some tempo) tpb)"

text \<open>
  The tempo map as the specification words it: the tempo changes of the stream with
  their ticks, and the rate in force at a tick, the most recent change at or before it,
  500000 before the first.
\<close>

fun tempo_changes :: "(int \<times> msg) list \<Rightarrow> (int \<times> int) list" where
  "tempo_changes [] = []"
| "tempo_changes ((abs_tick, Set_tempo t new_tempo) # evs) = (abs_tick, new_tempo) # tempo_changes evs"
| "tempo_changes (_ # evs) = tempo_changes evs"

definition spec_rate_at :: "(int \<times> int) list \<Rightarrow> int \<Rightarrow> int" where
  "spec_rate_at changes tick =
     (case filter (\<lambda>(t, r). t \<le> tick) changes of
        [] \<Rightarrow> 500000
      | c # cs \<Rightarrow> snd (last (c # cs)))"

section \<open>Header files: \<^verbatim>\<open>emit_header\<close> and \<^verbatim>\<open>parse_header\<close>\<close>

text \<open>
  A file is the string written to it; all characters involved are ASCII. \<open>py_str\<close> is
  \<^verbatim>\<open>str\<close> on an integer (what an f-string prints) and \<open>py_int_of_digits\<close> is \<^verbatim>\<open>int\<close> on
  a string of decimal digits.
\<close>

definition newline :: char where
  "newline = CHR 0x0A"

definition digit_char :: "nat \<Rightarrow> char" where
  "digit_char d = char_of (48 + d)"

fun digits_of :: "nat \<Rightarrow> string" where
  "digits_of n = (if n < 10 then [digit_char n] else digits_of (n div 10) @ [digit_char (n mod 10)])"

definition py_str :: "int \<Rightarrow> string" where
  "py_str i = (if i < 0 then CHR ''-'' # digits_of (nat (- i)) else digits_of (nat i))"

definition is_digit :: "char \<Rightarrow> bool" where
  "is_digit c = (48 \<le> (of_char c :: nat) \<and> (of_char c :: nat) \<le> 57)"

definition is_space :: "char \<Rightarrow> bool" where
  "is_space c = ((9 \<le> (of_char c :: nat) \<and> (of_char c :: nat) \<le> 13) \<or>
                 (28 \<le> (of_char c :: nat) \<and> (of_char c :: nat) \<le> 32))"

definition py_int_of_digits :: "string \<Rightarrow> int" where
  "py_int_of_digits s = int (foldl (\<lambda>a c. 10 * a + (of_char c - 48)) 0 s)"

text \<open>
  \<^verbatim>\<open>emit_header\<close>: a negative duration becomes 0, one above \<^verbatim>\<open>0xFFFF\<close> becomes 65535, and
  each note is one line \<^verbatim>\<open>  {freq, dur},\<close> between fixed lines.
\<close>

definition note_line :: "note_t \<Rightarrow> string" where
  "note_line x =
     (let freq = fst x;
          dur = (if snd x < 0 then 0 else snd x);
          dur = (if 65535 < dur then 65535 else dur)
      in ''  {'' @ py_str freq @ '', '' @ py_str dur @ ''},'' @ [newline])"

definition emit_header :: "note_t list \<Rightarrow> string \<Rightarrow> string" where
  "emit_header notes guard_name =
     ''/* Auto-generated simplified melody */'' @ [newline] @
     ''#ifndef '' @ guard_name @ [newline] @
     ''#define '' @ guard_name @ [newline, newline] @
     ''#include '' @ [CHR 0x22] @ ''main.h'' @ [CHR 0x22] @ [newline, newline] @
     ''typedef struct {'' @ [newline] @ ''    uint16_t freq;'' @ [newline] @
     ''    uint16_t duration;'' @ [newline] @ ''} Note_t;'' @ [newline, newline] @
     ''static const Note_t melody[] = {'' @ [newline] @
     concat (map note_line notes) @
     ''};'' @ [newline, newline] @
     ''static const size_t melody_len = sizeof(melody)/sizeof(melody[0]);'' @ [newline, newline] @
     ''#endif /* '' @ guard_name @ '' */'' @ [newline]"

text \<open>The default value of the parameter \<^verbatim>\<open>guard_name\<close>, which \<^verbatim>\<open>main\<close> uses.\<close>

definition default_guard_name :: string where
  "default_guard_name = ''BADAPPLE_MELODY_SIMPLE_H''"

text \<open>
  \<^verbatim>\<open>parse_header\<close> reads the file line by line (each line with its newline) and searches
  the line for \<^verbatim>\<open>\{\s*(\d+)\s*,\s*(\d+)\s*\},\<close>. In this expression every repetition is
  followed by something its own characters cannot start, so the greedy match is the only
  one: \<open>match_at\<close> matches at the head of a string, \<open>re_search\<close> at the leftmost position.
\<close>

fun py_lines :: "string \<Rightarrow> string \<Rightarrow> string list" where
  "py_lines cur [] = (if cur = [] then [] else [cur])"
| "py_lines cur (c # cs) =
     (if c = newline then (cur @ [c]) # py_lines [] cs else py_lines (cur @ [c]) cs)"

definition match_at :: "string \<Rightarrow> (string \<times> string) option" where
  "match_at s =
     (case s of
        [] \<Rightarrow> None
      | c # r1 \<Rightarrow>
          if c \<noteq> CHR ''{'' then None
          else
            (let r2 = dropWhile is_space r1;
                 g1 = takeWhile is_digit r2;
                 r3 = dropWhile is_space (dropWhile is_digit r2)
             in if g1 = [] then None
                else
                  (case r3 of
                     [] \<Rightarrow> None
                   | c3 # r4 \<Rightarrow>
                       if c3 \<noteq> CHR '','' then None
                       else
                         (let r5 = dropWhile is_space r4;
                              g2 = takeWhile is_digit r5;
                              r6 = dropWhile is_space (dropWhile is_digit r5)
                          in if g2 = [] then None
                             else
                               (case r6 of
                                  c6 # c7 # _ \<Rightarrow>
                                    if c6 = CHR ''}'' \<and> c7 = CHR '','' then Some (g1, g2) else None
                                | _ \<Rightarrow> None)))))"

fun re_search :: "string \<Rightarrow> (string \<times> string) option" where
  "re_search [] = None"
| "re_search (c # cs) =
     (case match_at (c # cs) of
        Some m \<Rightarrow> Some m
      | None \<Rightarrow> re_search cs)"

fun parse_loop :: "note_t list \<Rightarrow> string list \<Rightarrow> note_t list" where
  "parse_loop notes [] = notes"
| "parse_loop notes (line # rest) =
     (case re_search line of
        Some (g1, g2) \<Rightarrow> parse_loop (notes @ [(py_int_of_digits g1, py_int_of_digits g2)]) rest
      | None \<Rightarrow> parse_loop notes rest)"

definition parse_header :: "string \<Rightarrow> note_t list" where
  "parse_header file = parse_loop [] (py_lines [] file)"

text \<open>
  The lines \<^verbatim>\<open>emit_header\<close> writes before and after the notes, for the default guard
  name.
\<close>

definition header_lines :: "string list" where
  "header_lines =
     [''/* Auto-generated simplified melody */'' @ [newline],
      ''#ifndef '' @ default_guard_name @ [newline],
      ''#define '' @ default_guard_name @ [newline],
      [newline],
      ''#include '' @ [CHR 0x22] @ ''main.h'' @ [CHR 0x22] @ [newline],
      [newline],
      ''typedef struct {'' @ [newline],
      ''    uint16_t freq;'' @ [newline],
      ''    uint16_t duration;'' @ [newline],
      ''} Note_t;'' @ [newline],
      [newline],
      ''static const Note_t melody[] = {'' @ [newline]]"

definition footer_lines :: "string list" where
  "footer_lines =
     [''};'' @ [newline],
      [newline],
      ''static const size_t melody_len = sizeof(melody)/sizeof(melody[0]);'' @ [newline],
      [newline],
      ''#endif /* '' @ default_guard_name @ '' */'' @ [newline]]"

section \<open>Properties of the quantizer\<close>

subsection \<open>Arithmetic and the three passes\<close>






lemma sum_snd_butlast:
  "xs \<noteq> [] \<Longrightarrow> sum_list (map snd (butlast xs)) + snd (last xs) = (sum_list (map snd xs) :: int)"
  by (induction xs) auto

lemma sum_snd_update_last:
  "xs \<noteq> [] \<Longrightarrow> sum_list (map snd (butlast xs @ [(f, snd (last xs) + t)])) = sum_list (map snd xs) + (t::int)"
  using sum_snd_butlast[of xs] by simp






lemma bound_count_length:
  assumes "1 \<le> n" shows "int (length (bound_count quant n)) \<le> n"
proof (cases "n < int (length quant)")
  case False
  then show ?thesis by (simp add: bound_count_def)
next
  case True
  then show ?thesis using assms
    by (auto simp: bound_count_def Let_def py_slice_to_def)
qed






















subsection \<open>Rounding of the tick conversion\<close>

text \<open>
  Claim C3: the conversion returns \<open>round(tick_delta * rate / ticks_per_unit)\<close> with ties
  rounded half away from zero. \<^verbatim>\<open>ticks_to_ms\<close> calls Python 3's \<^verbatim>\<open>round\<close>, which sends a
  tie to the even neighbour: 5 ticks at 500000 microseconds per beat and 1000 ticks per
  beat are exactly 2.5 ms, and the function returns 2 where rounding half away from zero
  gives 3.
\<close>

theorem ticks_to_ms_tie_to_even:
  "ticks_to_ms 5 (Some 500000) 1000 = Inr 2 \<and>
   round_half_away (of_int (5 * 500000) / of_int 1000 / 1000) = 3"
  by code_simp

subsection \<open>The count bound\<close>

text \<open>
  For \<open>max_notes \<ge> 1\<close> the result has at most \<open>max_notes\<close> entries.
\<close>

lemma simplify_passes_length:
  "1 \<le> max_notes \<Longrightarrow> simplify_passes ns unit min_ms max_notes = Inr out \<Longrightarrow>
   int (length out) \<le> max_notes"
  by (auto simp: simplify_passes_def bound_count_length split: sum.splits)

text \<open>
  Claim C1: for every \<open>maximum_count \<ge> 0\<close> the output length is at most
  \<open>max(maximum_count, 1)\<close>, and with \<open>maximum_count = 0\<close> the result is a single rest
  carrying the whole duration. With \<open>max_notes = 0\<close> the slice \<^verbatim>\<open>quant[:max_notes-1]\<close> is
  \<^verbatim>\<open>quant[:-1]\<close>, all entries but the last, so three quantized notes come back as two
  entries, the first a tone, in both scripts.
\<close>

theorem simplify_max_notes_zero_keeps_two:
  "simplify_notes [(440, 125), (494, 125), (523, 125)] 500 8 80 0
     = Inr [(440, 125), (494, 250)] \<and>
   simplify_notes_header [(440, 128), (494, 128), (523, 128)] 128 80 0
     = Inr [(440, 128), (494, 256)]"
  by code_simp

subsection \<open>Conservation of time\<close>



subsection \<open>Quantized durations\<close>




subsection \<open>Idempotence\<close>




text \<open>
  The other two hypotheses are needed as well: with the fractional unit 1.25 the
  truncated duration 3 is quantized again to 2, and with \<open>max_notes = 0\<close> each run drops
  one more entry.
\<close>

lemma simplify_fractional_unit_second_run:
  "simplify_notes [(440, 4)] 10 8 1 400 = Inr [(440, 3)] \<and>
   simplify_notes [(440, 3)] 10 8 1 400 = Inr [(440, 2)]"
  by code_simp

lemma simplify_max_notes_zero_second_run:
  "simplify_notes_header [(440, 128), (494, 128), (523, 128)] 128 80 0
     = Inr [(440, 128), (494, 256)] \<and>
   simplify_notes_header [(440, 128), (494, 256)] 128 80 0 = Inr [(440, 384)]"
  by code_simp

subsection \<open>Configuration errors\<close>




section \<open>Properties of the reducer and of the conversion\<close>

subsection \<open>Grouping by start tick\<close>

lemma map_of_by_start_add:
  "map_of (by_start_add d x) s =
     (if s = iv_start x
      then Some ((case map_of d s of None \<Rightarrow> [] | Some g \<Rightarrow> g) @ [x])
      else map_of d s)"
  by (simp add: by_start_add_def AList.update_conv')

lemma distinct_by_start_add:
  "distinct (map fst d) \<Longrightarrow> distinct (map fst (by_start_add d x))"
  by (simp add: by_start_add_def AList.distinct_update)

lemma map_of_foldl_by_start_add:
  "map_of (foldl by_start_add d xs) s =
     (if filter (\<lambda>x. iv_start x = s) xs = [] then map_of d s
      else Some ((case map_of d s of None \<Rightarrow> [] | Some g \<Rightarrow> g) @ filter (\<lambda>x. iv_start x = s) xs))"
proof (induction xs arbitrary: d)
  case Nil
  then show ?case by simp
next
  case (Cons x xs)
  show ?case
  proof (cases "iv_start x = s")
    case True
    then show ?thesis
      by (simp add: Cons.IH map_of_by_start_add)
  next
    case False
    then have "map_of (by_start_add d x) s = map_of d s"
      by (simp add: map_of_by_start_add)
    with False show ?thesis by (simp add: Cons.IH)
  qed
qed

lemma distinct_foldl_by_start_add:
  "distinct (map fst d) \<Longrightarrow> distinct (map fst (foldl by_start_add d xs))"
  by (induction xs arbitrary: d) (simp_all add: distinct_by_start_add)

lemma map_of_by_start:
  "map_of (by_start rs) s =
     (if filter (\<lambda>x. iv_start x = s) rs = [] then None
      else Some (filter (\<lambda>x. iv_start x = s) rs))"
  by (simp add: by_start_def map_of_foldl_by_start_add)

lemma distinct_by_start: "distinct (map fst (by_start rs))"
  by (simp add: by_start_def distinct_foldl_by_start_add)

lemma keys_by_start: "fst ` set (by_start rs) = iv_start ` set rs"
proof -
  have "s \<in> fst ` set (by_start rs) \<longleftrightarrow> s \<in> iv_start ` set rs" for s
  proof -
    have "s \<in> fst ` set (by_start rs) \<longleftrightarrow> map_of (by_start rs) s \<noteq> None"
      by (simp add: map_of_eq_None_iff)
    also have "\<dots> \<longleftrightarrow> filter (\<lambda>x. iv_start x = s) rs \<noteq> []"
      by (simp add: map_of_by_start)
    also have "\<dots> \<longleftrightarrow> s \<in> iv_start ` set rs"
      by (auto simp: filter_empty_conv)
    finally show ?thesis .
  qed
  then show ?thesis by blast
qed

subsection \<open>The chord winner\<close>

lemma tuple_less_trans_le:
  "\<not> tuple_less b a \<Longrightarrow> \<not> tuple_less c b \<Longrightarrow> \<not> tuple_less c a"
  by (cases a, cases b, cases c) auto

lemma foldl_max_step:
  fixes b :: interval
  defines "f \<equiv> (\<lambda>best y. if tuple_less (chord_key best) (chord_key y) then y else best)"
  shows "foldl f b ys \<in> set (b # ys) \<and>
         (\<forall>x\<in>set (b # ys). \<not> tuple_less (chord_key (foldl f b ys)) (chord_key x))"
proof (induction ys arbitrary: b)
  case Nil
  show ?case by (cases "chord_key b") simp
next
  case (Cons y ys)
  let ?r = "foldl f (f b y) ys"
  from Cons[of "f b y"] have mem: "?r \<in> set (f b y # ys)"
    and mx: "\<forall>x\<in>set (f b y # ys). \<not> tuple_less (chord_key ?r) (chord_key x)" by blast+
  have fb: "f b y = b \<or> f b y = y" by (simp add: f_def)
  have top: "\<not> tuple_less (chord_key ?r) (chord_key (f b y))" using mx by simp
  have "\<not> tuple_less (chord_key (f b y)) (chord_key b)"
    by (cases "chord_key b"; cases "chord_key y") (auto simp: f_def)
  then have b: "\<not> tuple_less (chord_key ?r) (chord_key b)"
    using top tuple_less_trans_le by blast
  have "\<not> tuple_less (chord_key (f b y)) (chord_key y)"
    by (cases "chord_key b"; cases "chord_key y") (auto simp: f_def)
  then have y: "\<not> tuple_less (chord_key ?r) (chord_key y)"
    using top tuple_less_trans_le by blast
  have "?r \<in> set (b # y # ys)" using mem fb by auto
  moreover have "\<forall>x\<in>set (b # y # ys). \<not> tuple_less (chord_key ?r) (chord_key x)"
    using b y mx by simp
  ultimately show ?case by simp
qed

lemma py_max_winner:
  assumes "g \<noteq> []"
  shows "\<exists>w. py_max g = Inr w \<and> w \<in> set g \<and>
           (\<forall>x\<in>set g. \<not> tuple_less (chord_key w) (chord_key x))"
proof -
  from assms obtain b ys where g: "g = b # ys" by (cases g) auto
  show ?thesis unfolding g using foldl_max_step[of b ys] by simp
qed

lemma not_tuple_less_chord_key:
  "\<not> tuple_less (chord_key w) (chord_key x) \<longleftrightarrow>
   iv_velocity x < iv_velocity w \<or> (iv_velocity x = iv_velocity w \<and> iv_note x \<le> iv_note w)"
  by (auto simp: chord_key_def)

subsection \<open>The loop over the keys\<close>

lemma choose_loop_all2:
  assumes "\<forall>s\<in>set ks. \<exists>g. map_of d s = Some g \<and> g \<noteq> []"
  shows "\<exists>tl. choose_loop d acc ks = Inr (acc @ tl) \<and>
           list_all2 (\<lambda>s w. \<exists>g. map_of d s = Some g \<and> py_max g = Inr w) ks tl"
  using assms
proof (induction ks arbitrary: acc)
  case Nil
  then show ?case by simp
next
  case (Cons s ks)
  then obtain g where g: "map_of d s = Some g" "g \<noteq> []" by auto
  then obtain w where w: "py_max g = Inr w" using py_max_winner by blast
  from Cons.prems have "\<forall>s\<in>set ks. \<exists>g. map_of d s = Some g \<and> g \<noteq> []" by simp
  from Cons.IH[OF this, of "acc @ [w]"] obtain tl where
    tl: "choose_loop d (acc @ [w]) ks = Inr ((acc @ [w]) @ tl)"
      "list_all2 (\<lambda>s w. \<exists>g. map_of d s = Some g \<and> py_max g = Inr w) ks tl" by blast
  have "choose_loop d acc (s # ks) = Inr (acc @ (w # tl))"
    using g w tl(1) by simp
  moreover have "list_all2 (\<lambda>s w. \<exists>g. map_of d s = Some g \<and> py_max g = Inr w) (s # ks) (w # tl)"
    using g w tl(2) by simp
  ultimately show ?case by blast
qed

subsection \<open>The timeline\<close>

lemma map_of_by_start_sorted:
  "map_of (by_start (sort_key iv_start rs)) s =
     (if filter (\<lambda>x. iv_start x = s) rs = [] then None
      else Some (filter (\<lambda>x. iv_start x = s) rs))"
  unfolding map_of_by_start sort_key_stable ..

lemma keys_by_start_sorted:
  "set (sort (map fst (by_start (sort_key iv_start rs)))) = iv_start ` set rs"
proof -
  have "set (sort (map fst (by_start (sort_key iv_start rs)))) =
      fst ` set (by_start (sort_key iv_start rs))" by simp
  also have "\<dots> = iv_start ` set (sort_key iv_start rs)" by (rule keys_by_start)
  also have "\<dots> = iv_start ` set rs" by simp
  finally show ?thesis .
qed

lemma list_all2_map_eq:
  "list_all2 (\<lambda>s w. f w = s) ks ws \<Longrightarrow> map f ws = ks"
  by (induction ks ws rule: list_all2_induct) simp_all

lemma group_winner:
  assumes "map_of (by_start (sort_key iv_start rs)) s = Some g" "py_max g = Inr w"
  shows "iv_start w = s \<and> w \<in> set rs \<and>
      (\<forall>x\<in>set rs. iv_start x = s \<longrightarrow> \<not> tuple_less (chord_key w) (chord_key x))"
proof -
  from assms(1) have ge: "g = filter (\<lambda>x. iv_start x = s) rs \<and> g \<noteq> []"
    unfolding map_of_by_start_sorted by (cases "filter (\<lambda>x. iv_start x = s) rs = []") simp_all
  from py_max_winner[of g] ge assms(2) have w: "w \<in> set g"
    "\<forall>x\<in>set g. \<not> tuple_less (chord_key w) (chord_key x)" by auto
  have sg: "set g = {x \<in> set rs. iv_start x = s}" using ge by simp
  show ?thesis using w unfolding sg by blast
qed

lemma group_exists:
  assumes "s \<in> set (sort (map fst (by_start (sort_key iv_start rs))))"
  shows "\<exists>g. map_of (by_start (sort_key iv_start rs)) s = Some g \<and> g \<noteq> []"
proof -
  from assms have "s \<in> iv_start ` set rs" unfolding keys_by_start_sorted .
  then have "filter (\<lambda>x. iv_start x = s) rs \<noteq> []"
    by (auto simp: filter_empty_conv)
  then show ?thesis unfolding map_of_by_start_sorted by simp
qed

lemma timeline_of_winners:
  "\<exists>tl. timeline_of rs = Inr tl \<and> sorted (map iv_start tl) \<and> distinct (map iv_start tl) \<and>
     iv_start ` set tl = iv_start ` set rs \<and>
     (\<forall>w\<in>set tl. w \<in> set rs \<and>
        (\<forall>x\<in>set rs. iv_start x = iv_start w \<longrightarrow>
           \<not> tuple_less (chord_key w) (chord_key x)))"
proof -
  define d where "d = by_start (sort_key iv_start rs)"
  define ks where "ks = sort (map fst d)"
  let ?R = "\<lambda>s w. \<exists>g. map_of d s = Some g \<and> py_max g = Inr w"
  have "\<forall>s\<in>set ks. \<exists>g. map_of d s = Some g \<and> g \<noteq> []"
    unfolding ks_def d_def using group_exists by blast
  from choose_loop_all2[OF this, of "[]"] obtain tl where
    tl: "choose_loop d [] ks = Inr tl" "list_all2 ?R ks tl" by auto
  have win: "iv_start w = s \<and> w \<in> set rs \<and>
      (\<forall>x\<in>set rs. iv_start x = s \<longrightarrow> \<not> tuple_less (chord_key w) (chord_key x))"
    if "?R s w" for s w
    using that group_winner unfolding d_def by blast
  have "list_all2 (\<lambda>s w. iv_start w = s) ks tl"
    by (rule list_all2_mono[OF tl(2)]) (use win in blast)
  then have starts: "map iv_start tl = ks" by (rule list_all2_map_eq)
  have srt: "sorted (map iv_start tl)" unfolding starts ks_def by simp
  have dst: "distinct (map iv_start tl)"
    unfolding starts ks_def d_def using distinct_by_start[of "sort_key iv_start rs"] by simp
  have "set (map iv_start tl) = iv_start ` set rs"
    unfolding starts ks_def d_def by (rule keys_by_start_sorted)
  then have st: "iv_start ` set tl = iv_start ` set rs" by simp
  have all: "\<forall>w\<in>set tl. w \<in> set rs \<and>
        (\<forall>x\<in>set rs. iv_start x = iv_start w \<longrightarrow> \<not> tuple_less (chord_key w) (chord_key x))"
  proof
    fix w assume "w \<in> set tl"
    then obtain i where i: "i < length tl" "tl ! i = w" by (auto simp: in_set_conv_nth)
    with tl(2) have "?R (ks ! i) w" by (auto simp: list_all2_conv_all_nth)
    from win[OF this] show "w \<in> set rs \<and>
        (\<forall>x\<in>set rs. iv_start x = iv_start w \<longrightarrow> \<not> tuple_less (chord_key w) (chord_key x))"
      by simp
  qed
  have "timeline_of rs = Inr (sort_key iv_start tl)"
    unfolding timeline_of_def Let_def d_def[symmetric] ks_def[symmetric] tl(1) by simp
  then have "timeline_of rs = Inr tl"
    using sort_key_id_if_sorted[OF srt] by simp
  with srt dst st all show ?thesis by blast
qed

subsection \<open>The event loop\<close>

lemma note_end_inactive: "active n = None \<Longrightarrow> note_end abs_tick n active results = (active, results)"
  by (simp add: note_end_def)

lemma handle_event_no_end:
  "\<not> is_note_end m \<Longrightarrow> snd (snd (handle_event (tempo, active, results) (abs_tick, m))) = results"
  by (cases m) (auto simp: is_note_end_def)

lemma event_loop_no_end:
  "\<forall>ev\<in>set events. \<not> is_note_end (snd ev) \<Longrightarrow>
   snd (snd (foldl handle_event (tempo, active, results) events)) = results"
proof (induction events arbitrary: tempo active results)
  case Nil
  then show ?case by simp
next
  case (Cons ev events)
  obtain abs_tick m where ev: "ev = (abs_tick, m)" by (cases ev)
  obtain tempo' active' results' where
    st: "handle_event (tempo, active, results) (abs_tick, m) = (tempo', active', results')"
    by (cases "handle_event (tempo, active, results) (abs_tick, m)") auto
  from Cons.prems ev have "\<not> is_note_end m" by simp
  from handle_event_no_end[OF this, of tempo active results abs_tick] st
  have "results' = results" by simp
  moreover from Cons.prems have "\<forall>ev\<in>set events. \<not> is_note_end (snd ev)" by simp
  ultimately show ?case using Cons.IH[of tempo' active' results'] ev st by simp
qed

lemma snd_set_abs_track: "snd ` set (abs_track a ms) = set ms"
  by (induction ms arbitrary: a) auto

lemma snd_set_merged_events: "snd ` set (merged_events trks) = set (concat trks)"
proof -
  have "snd ` set (merged_events trks) = (\<Union>t\<in>set trks. snd ` set (abs_track 0 t))"
    by (auto simp: merged_events_def)
  then show ?thesis by (simp add: snd_set_abs_track)
qed

lemma fst_foldl_handle_event:
  "fst (foldl handle_event (tempo, active, results) events) =
     (case tempo_changes events of [] \<Rightarrow> tempo | c # cs \<Rightarrow> snd (last (c # cs)))"
proof (induction events arbitrary: tempo active results)
  case Nil
  then show ?case by simp
next
  case (Cons ev events)
  obtain abs_tick m where ev: "ev = (abs_tick, m)" by (cases ev)
  show ?case
  proof (cases m)
    case (Set_tempo t new_tempo)
    then show ?thesis unfolding ev
      by (simp add: Cons.IH split: list.splits)
  next
    case (Note_on t n v)
    obtain a' r' where "note_end abs_tick n active results = (a', r')"
      by (cases "note_end abs_tick n active results")
    with Note_on show ?thesis unfolding ev by (simp add: Cons.IH)
  next
    case (Note_off t n v)
    obtain a' r' where "note_end abs_tick n active results = (a', r')"
      by (cases "note_end abs_tick n active results")
    with Note_off show ?thesis unfolding ev by (simp add: Cons.IH)
  next
    case (Other_msg t)
    then show ?thesis unfolding ev by (simp add: Cons.IH)
  qed
qed

lemma extract_monophonic_eq:
  "\<exists>tl. timeline_of (snd (snd (event_loop (merged_events (tracks mid))))) = Inr tl \<and>
     extract_monophonic mid =
       Inr (map (\<lambda>(n, s, e, vel). (n, s, e)) tl,
            fst (event_loop (merged_events (tracks mid))), ticks_per_beat mid)"
proof -
  obtain tempo active results where
    st: "event_loop (merged_events (tracks mid)) = (tempo, active, results)"
    by (cases "event_loop (merged_events (tracks mid))") auto
  obtain tl where "timeline_of results = Inr tl"
    using timeline_of_winners[of results] by blast
  then show ?thesis by (simp add: extract_monophonic_def st)
qed

subsection \<open>Closed notes and converted durations\<close>

lemma handle_event_results:
  assumes "handle_event (tempo, active, results) (abs_tick, m) = (tempo', active', results')"
  shows "\<forall>x\<in>set results'. x \<in> set results \<or>
           (iv_end x = abs_tick \<and> is_note_end m \<and> msg_note m = iv_note x)"
proof -
  have ne: "\<forall>x\<in>set r'. x \<in> set results \<or> (iv_end x = abs_tick \<and> n = iv_note x)"
    if "note_end abs_tick n active results = (a', r')" for n a' r'
    using that by (auto simp: note_end_def iv_end_def iv_note_def split: option.splits)
  show ?thesis
  proof (cases m)
    case (Note_on t n v)
    show ?thesis
    proof (cases "v = 0")
      case True
      with assms Note_on have "note_end abs_tick n active results = (active', results')" by simp
      from ne[OF this] show ?thesis using Note_on True by (simp add: is_note_end_def)
    next
      case False
      with assms Note_on have "results' = results" by (auto split: if_splits)
      then show ?thesis by simp
    qed
  next
    case (Note_off t n v)
    with assms have "note_end abs_tick n active results = (active', results')" by simp
    from ne[OF this] show ?thesis using Note_off by (simp add: is_note_end_def)
  next
    case (Set_tempo t new_tempo)
    with assms show ?thesis by simp
  next
    case (Other_msg t)
    with assms show ?thesis by simp
  qed
qed

lemma foldl_handle_event_results:
  "foldl handle_event (tempo, active, results) events = (tempo', active', results') \<Longrightarrow>
   \<forall>x\<in>set results'. x \<in> set results \<or>
     (\<exists>m. (iv_end x, m) \<in> set events \<and> is_note_end m \<and> msg_note m = iv_note x)"
proof (induction events arbitrary: tempo active results)
  case Nil
  then show ?case by simp
next
  case (Cons ev events)
  obtain abs_tick m where ev: "ev = (abs_tick, m)" by (cases ev)
  obtain t1 a1 r1 where
    st: "handle_event (tempo, active, results) (abs_tick, m) = (t1, a1, r1)"
    by (cases "handle_event (tempo, active, results) (abs_tick, m)") auto
  from Cons.prems have "foldl handle_event (t1, a1, r1) events = (tempo', active', results')"
    unfolding ev by (simp add: st)
  from Cons.IH[OF this] have ih: "\<forall>x\<in>set results'. x \<in> set r1 \<or>
     (\<exists>m. (iv_end x, m) \<in> set events \<and> is_note_end m \<and> msg_note m = iv_note x)" .
  note hs = handle_event_results[OF st]
  show ?case
  proof
    fix x assume "x \<in> set results'"
    with ih consider "x \<in> set r1"
      | "\<exists>m. (iv_end x, m) \<in> set events \<and> is_note_end m \<and> msg_note m = iv_note x" by blast
    then show "x \<in> set results \<or>
        (\<exists>m. (iv_end x, m) \<in> set (ev # events) \<and> is_note_end m \<and> msg_note m = iv_note x)"
    proof cases
      case 1
      with hs have "x \<in> set results \<or>
          (iv_end x = abs_tick \<and> is_note_end m \<and> msg_note m = iv_note x)" by blast
      then show ?thesis unfolding ev by auto
    next
      case 2
      then show ?thesis by auto
    qed
  qed
qed

lemma ticks_to_ms_Inr:
  "tpb \<noteq> 0 \<Longrightarrow> \<exists>d. ticks_to_ms t tempo tpb = Inr d"
  by (simp add: ticks_to_ms_def py_truediv_def Let_def)

lemma note_loop_total:
  "tpb \<noteq> 0 \<Longrightarrow> \<exists>ns. note_loop ntf tempo tpb cur acc evs = Inr ns"
proof (induction evs arbitrary: cur acc)
  case Nil
  then show ?case by simp
next
  case (Cons ev evs)
  obtain n s e where ev: "ev = (n, s, e)" by (cases ev)
  obtain r where r: "ticks_to_ms (s - cur) tempo tpb = Inr r"
    using ticks_to_ms_Inr[OF Cons.prems] by blast
  obtain d where d: "ticks_to_ms (e - s) tempo tpb = Inr d"
    using ticks_to_ms_Inr[OF Cons.prems] by blast
  show ?case unfolding ev using Cons.IH[OF Cons.prems] r d by simp
qed

lemma note_loop_durations:
  "note_loop ntf tempo tpb cur acc evs = Inr ns \<Longrightarrow>
   set acc \<subseteq> set ns \<and>
   (\<forall>(n, s, e)\<in>set evs. \<exists>d. ticks_to_ms (e - s) tempo tpb = Inr d \<and> (ntf n, d) \<in> set ns) \<and>
   (\<forall>x\<in>set ns. x \<in> set acc \<or> (\<exists>t. ticks_to_ms t tempo tpb = Inr (snd x)))"
proof (induction evs arbitrary: cur acc)
  case Nil
  then show ?case by simp
next
  case (Cons ev evs)
  obtain n s e where ev: "ev = (n, s, e)" by (cases ev)
  let ?gap = "(if cur < s
            then (case ticks_to_ms (s - cur) tempo tpb of
                    Inl er \<Rightarrow> Inl er
                  | Inr rest_ms \<Rightarrow> Inr (if 0 < rest_ms then acc @ [(0, rest_ms)] else acc))
            else Inr acc)"
  from Cons.prems obtain acc1 where g: "?gap = Inr acc1"
    unfolding ev by (cases ?gap) simp_all
  from Cons.prems g obtain d where d: "ticks_to_ms (e - s) tempo tpb = Inr d"
    unfolding ev by (cases "ticks_to_ms (e - s) tempo tpb") simp_all
  from Cons.prems g d have rec: "note_loop ntf tempo tpb e (acc1 @ [(ntf n, d)]) evs = Inr ns"
    unfolding ev by simp
  have a1: "set acc \<subseteq> set acc1"
    using g by (auto split: if_splits sum.splits)
  have a2: "\<forall>x\<in>set acc1. x \<in> set acc \<or> (\<exists>t. ticks_to_ms t tempo tpb = Inr (snd x))"
    using g by (auto split: if_splits sum.splits)
  from Cons.IH[OF rec] have ih1: "set (acc1 @ [(ntf n, d)]) \<subseteq> set ns"
    and ih2: "\<forall>(n, s, e)\<in>set evs. \<exists>d. ticks_to_ms (e - s) tempo tpb = Inr d \<and> (ntf n, d) \<in> set ns"
    and ih3: "\<forall>x\<in>set ns. x \<in> set (acc1 @ [(ntf n, d)]) \<or> (\<exists>t. ticks_to_ms t tempo tpb = Inr (snd x))"
    by blast+
  have c1: "set acc \<subseteq> set ns" using a1 ih1 by auto
  have "(ntf n, d) \<in> set ns" using ih1 by simp
  then have c2: "\<forall>(n, s, e)\<in>set (ev # evs). \<exists>d. ticks_to_ms (e - s) tempo tpb = Inr d \<and> (ntf n, d) \<in> set ns"
    unfolding ev using d ih2 by simp
  have c3: "\<forall>x\<in>set ns. x \<in> set acc \<or> (\<exists>t. ticks_to_ms t tempo tpb = Inr (snd x))"
  proof
    fix x assume "x \<in> set ns"
    with ih3 consider "x \<in> set acc1" | "x = (ntf n, d)" | "\<exists>t. ticks_to_ms t tempo tpb = Inr (snd x)"
      by auto
    then show "x \<in> set acc \<or> (\<exists>t. ticks_to_ms t tempo tpb = Inr (snd x))"
    proof cases
      case 1 then show ?thesis using a2 by blast
    next
      case 2 then show ?thesis using d by auto
    next
      case 3 then show ?thesis by blast
    qed
  qed
  from c1 c2 c3 show ?case by blast
qed

subsection \<open>One winner per chord\<close>

text \<open>
  Claim C7: for every group of closed notes sharing a start tick the reducer selects
  exactly one winner, of maximum velocity and, among equal velocities, of maximum pitch.
  With \<open>results\<close> the closed notes of the event loop, \<^verbatim>\<open>extract_monophonic\<close> returns a
  timeline with exactly one entry per start tick of \<open>results\<close>; each entry is a closed note,
  and every closed note of the same start tick has a smaller velocity, or the same
  velocity and a pitch not above it. The timeline is a function of the input.
\<close>

theorem chord_winner:
  assumes "results = snd (snd (event_loop (merged_events (tracks mid))))"
  shows "\<exists>timeline.
     timeline_of results = Inr timeline \<and>
     extract_monophonic mid =
       Inr (map (\<lambda>(n, s, e, vel). (n, s, e)) timeline,
            fst (event_loop (merged_events (tracks mid))), ticks_per_beat mid) \<and>
     distinct (map iv_start timeline) \<and>
     iv_start ` set timeline = iv_start ` set results \<and>
     (\<forall>w\<in>set timeline. w \<in> set results \<and>
        (\<forall>x\<in>set results. iv_start x = iv_start w \<longrightarrow>
           iv_velocity x < iv_velocity w \<or>
           (iv_velocity x = iv_velocity w \<and> iv_note x \<le> iv_note w)))"
proof -
  obtain tl where tl: "timeline_of results = Inr tl" "distinct (map iv_start tl)"
    "iv_start ` set tl = iv_start ` set results"
    "\<forall>w\<in>set tl. w \<in> set results \<and>
        (\<forall>x\<in>set results. iv_start x = iv_start w \<longrightarrow>
           \<not> tuple_less (chord_key w) (chord_key x))"
    using timeline_of_winners[of results] by blast
  have "extract_monophonic mid =
       Inr (map (\<lambda>(n, s, e, vel). (n, s, e)) tl,
            fst (event_loop (merged_events (tracks mid))), ticks_per_beat mid)"
    using extract_monophonic_eq[of mid] tl(1) unfolding assms by auto
  with tl show ?thesis unfolding not_tuple_less_chord_key by blast
qed

theorem chord_winner_witness:
  "timeline_of [(72, 50, 60, 127), (67, 0, 100, 90), (60, 0, 100, 100), (64, 0, 120, 100)]
     = Inr [(64, 0, 120, 100), (72, 50, 60, 127)] \<and>
   extract_monophonic \<lparr>ticks_per_beat = 480, tracks =
       [[Note_on 0 60 100, Note_on 0 64 100, Note_on 0 67 90, Note_off 100 67 0,
         Note_off 0 60 0, Note_off 20 64 0, Note_off 5 99 0],
        [Note_on 50 72 127, Note_on 10 72 0]]\<rparr>
     = Inr ([(64, 0, 120), (72, 50, 60)], 500000, 480)"
proof -
  let ?mid = "\<lparr>ticks_per_beat = 480, tracks =
       [[Note_on 0 60 100, Note_on 0 64 100, Note_on 0 67 90, Note_off 100 67 0,
         Note_off 0 60 0, Note_off 20 64 0, Note_off 5 99 0],
        [Note_on 50 72 127, Note_on 10 72 0]]\<rparr>"
  let ?rs = "[(72, 50, 60, 127), (67, 0, 100, 90), (60, 0, 100, 100), (64, 0, 120, 100)]"
  have h: "?rs = snd (snd (event_loop (merged_events (tracks ?mid))))"
    by code_simp
  have e1: "timeline_of ?rs = Inr [(64, 0, 120, 100), (72, 50, 60, 127)]"
    by code_simp
  have e2: "fst (event_loop (merged_events (tracks ?mid))) = 500000"
    by code_simp
  from chord_winner[OF h] e1 e2 show ?thesis by auto
qed

subsection \<open>Malformed streams\<close>

text \<open>
  Claim C9: the reducer raises no error. \<^verbatim>\<open>extract_monophonic\<close> returns a result for every
  file, and each returned segment was closed by a note-end message of its pitch at its
  end tick; a note end whose pitch is not active leaves the state unchanged; a stream
  with no note-end message, where every started note is still active at the end, yields
  no segment.
\<close>

theorem reducer_ignores_malformed:
  "(\<exists>out tempo. extract_monophonic mid = Inr (out, tempo, ticks_per_beat mid) \<and>
      (\<forall>(n, s, e)\<in>set out. \<exists>m. (e, m) \<in> set (merged_events (tracks mid)) \<and>
         is_note_end m \<and> msg_note m = n)) \<and>
   (active n = None \<longrightarrow>
      handle_event (tempo, active, results) (abs_tick, Note_off t n v) = (tempo, active, results) \<and>
      handle_event (tempo, active, results) (abs_tick, Note_on t n 0) = (tempo, active, results)) \<and>
   ((\<forall>m\<in>set (concat (tracks mid)). \<not> is_note_end m) \<longrightarrow>
      (\<exists>tempo. extract_monophonic mid = Inr ([], tempo, ticks_per_beat mid)))"
proof -
  let ?E = "merged_events (tracks mid)"
  obtain tp ac rs where st: "event_loop ?E = (tp, ac, rs)"
    by (cases "event_loop ?E") auto
  obtain tl where tl: "timeline_of rs = Inr tl"
    "\<forall>w\<in>set tl. w \<in> set rs \<and>
        (\<forall>x\<in>set rs. iv_start x = iv_start w \<longrightarrow> \<not> tuple_less (chord_key w) (chord_key x))"
    using timeline_of_winners[of rs] by blast
  have ex: "extract_monophonic mid =
      Inr (map (\<lambda>(n, s, e, vel). (n, s, e)) tl, tp, ticks_per_beat mid)"
    by (simp add: extract_monophonic_def st tl(1))
  have closed: "\<forall>x\<in>set rs. \<exists>m. (iv_end x, m) \<in> set ?E \<and> is_note_end m \<and> msg_note m = iv_note x"
    using foldl_handle_event_results[of 500000 Map.empty "[]" ?E tp ac rs] st
    by (simp add: event_loop_def)
  have "\<forall>(n, s, e)\<in>set (map (\<lambda>(n, s, e, vel). (n, s, e)) tl).
      \<exists>m. (e, m) \<in> set ?E \<and> is_note_end m \<and> msg_note m = n"
  proof -
    have "\<exists>m. (e, m) \<in> set ?E \<and> is_note_end m \<and> msg_note m = n"
      if "(n, s, e, vel) \<in> set tl" for n s e vel
    proof -
      from that tl(2) have "(n, s, e, vel) \<in> set rs" by blast
      with closed show ?thesis by (fastforce simp: iv_end_def iv_note_def)
    qed
    then show ?thesis by auto
  qed
  with ex have c1: "\<exists>out tempo. extract_monophonic mid = Inr (out, tempo, ticks_per_beat mid) \<and>
      (\<forall>(n, s, e)\<in>set out. \<exists>m. (e, m) \<in> set ?E \<and> is_note_end m \<and> msg_note m = n)"
    by blast
  have c2: "handle_event (tempo, active, results) (abs_tick, Note_off t n v) = (tempo, active, results) \<and>
      handle_event (tempo, active, results) (abs_tick, Note_on t n 0) = (tempo, active, results)"
    if "active n = None"
    using that by (simp add: note_end_inactive)
  have c3: "\<exists>tempo. extract_monophonic mid = Inr ([], tempo, ticks_per_beat mid)"
    if "\<forall>m\<in>set (concat (tracks mid)). \<not> is_note_end m"
  proof -
    have "\<forall>ev\<in>set ?E. \<not> is_note_end (snd ev)"
      using that snd_set_merged_events[of "tracks mid"] by (metis imageI)
    from event_loop_no_end[OF this, of 500000 Map.empty "[]"] st
    have "rs = []" by (simp add: event_loop_def)
    with tl(2) have "tl = []" by (cases tl) auto
    with ex show ?thesis by simp
  qed
  from c1 c2 c3 show ?thesis by blast
qed

theorem reducer_ignores_malformed_witness:
  "extract_monophonic \<lparr>ticks_per_beat = 480, tracks = [[Note_on 0 60 100]]\<rparr>
     = Inr ([], 500000, 480) \<and>
   handle_event (500000, Map.empty, []) (10, Note_off 10 60 0) = (500000, Map.empty, [])"
proof -
  let ?mid = "\<lparr>ticks_per_beat = 480, tracks = [[Note_on 0 60 100]]\<rparr>"
  have h1: "\<forall>m\<in>set (concat (tracks ?mid)). \<not> is_note_end m"
    by (simp add: is_note_end_def)
  have h2: "(Map.empty :: int \<rightharpoonup> int \<times> int) 60 = None" by simp
  have e: "extract_monophonic ?mid = Inr ([], 500000, 480)" by code_simp
  note t = reducer_ignores_malformed[of ?mid Map.empty 60 500000 "[]" 10 10 0]
  from t h1 h2 e show ?thesis by simp
qed

subsection \<open>The tempo used by the conversion\<close>

text \<open>
  Claim C2, as amended: every tick delta is converted with one and the same rate, the
  tempo of the last tempo change of the whole merged stream, or 500000 when the stream
  has none, whatever the tick position of the delta. \<^verbatim>\<open>extract_monophonic\<close> returns that
  tempo, \<^verbatim>\<open>main\<close> passes it to \<^verbatim>\<open>build_note_array\<close>, which returns a list when
  \<open>ticks_per_beat\<close> is not zero, and every duration of that list is \<^verbatim>\<open>ticks_to_ms\<close> of some
  delta at that tempo; in particular each segment's tone lasts
  \<^verbatim>\<open>ticks_to_ms(e - s, tempo, ticks_per_beat)\<close>.
\<close>

theorem single_tempo_for_all_deltas:
  assumes "final_tempo =
      (case tempo_changes (merged_events (tracks mid)) of
         [] \<Rightarrow> 500000
       | c # cs \<Rightarrow> snd (last (c # cs)))"
  shows "\<exists>events.
     extract_monophonic mid = Inr (events, final_tempo, ticks_per_beat mid) \<and>
     main_notes ntf mid = build_note_array ntf events (Some final_tempo) (ticks_per_beat mid) \<and>
     (ticks_per_beat mid \<noteq> 0 \<longrightarrow> (\<exists>ns. main_notes ntf mid = Inr ns)) \<and>
     (\<forall>ns. main_notes ntf mid = Inr ns \<longrightarrow>
        (\<forall>(n, s, e)\<in>set events.
           \<exists>d. ticks_to_ms (e - s) (Some final_tempo) (ticks_per_beat mid) = Inr d \<and>
               (ntf n, d) \<in> set ns) \<and>
        (\<forall>x\<in>set ns.
           \<exists>t. ticks_to_ms t (Some final_tempo) (ticks_per_beat mid) = Inr (snd x)))"
proof -
  let ?tpb = "ticks_per_beat mid"
  have ft: "fst (event_loop (merged_events (tracks mid))) = final_tempo"
    unfolding assms event_loop_def by (rule fst_foldl_handle_event)
  have "\<exists>events. extract_monophonic mid = Inr (events, final_tempo, ?tpb)"
    using extract_monophonic_eq[of mid] unfolding ft by auto
  then obtain events where ex: "extract_monophonic mid = Inr (events, final_tempo, ?tpb)" ..
  then have mn: "main_notes ntf mid = build_note_array ntf events (Some final_tempo) ?tpb"
    by (simp add: main_notes_def)
  have tot: "\<exists>ns. main_notes ntf mid = Inr ns" if "?tpb \<noteq> 0"
  proof (cases events)
    case Nil
    then show ?thesis unfolding mn by (simp add: build_note_array_def)
  next
    case (Cons ev evs)
    obtain n s e where "ev = (n, s, e)" by (cases ev)
    with Cons show ?thesis unfolding mn
      using note_loop_total[OF that, of ntf "Some final_tempo" s "[]" events]
      by (simp add: build_note_array_def)
  qed
  have dur: "(\<forall>(n, s, e)\<in>set events.
           \<exists>d. ticks_to_ms (e - s) (Some final_tempo) ?tpb = Inr d \<and> (ntf n, d) \<in> set ns) \<and>
        (\<forall>x\<in>set ns. \<exists>t. ticks_to_ms t (Some final_tempo) ?tpb = Inr (snd x))"
    if "main_notes ntf mid = Inr ns" for ns
  proof (cases events)
    case Nil
    with that show ?thesis unfolding mn by (simp add: build_note_array_def)
  next
    case (Cons ev evs)
    obtain n s e where "ev = (n, s, e)" by (cases ev)
    with Cons that have "note_loop ntf (Some final_tempo) ?tpb s [] events = Inr ns"
      unfolding mn by (simp add: build_note_array_def)
    from note_loop_durations[OF this] show ?thesis by simp
  qed
  from ex mn tot dur show ?thesis by blast
qed

theorem single_tempo_for_all_deltas_witness:
  "extract_monophonic \<lparr>ticks_per_beat = 480, tracks =
       [[Note_on 0 60 100, Note_off 480 60 0, Set_tempo 0 250000,
         Note_on 0 62 100, Note_off 480 62 0]]\<rparr>
     = Inr ([(60, 0, 480), (62, 480, 960)], 250000, 480) \<and>
   main_notes (\<lambda>n. if n = 60 then 262 else if n = 62 then 294 else 0)
     \<lparr>ticks_per_beat = 480, tracks =
       [[Note_on 0 60 100, Note_off 480 60 0, Set_tempo 0 250000,
         Note_on 0 62 100, Note_off 480 62 0]]\<rparr>
     = Inr [(262, 250), (294, 250)] \<and>
   ticks_to_ms (480 - 0) (Some 250000) 480 = Inr 250"
proof -
  let ?mid = "\<lparr>ticks_per_beat = 480, tracks =
       [[Note_on 0 60 100, Note_off 480 60 0, Set_tempo 0 250000,
         Note_on 0 62 100, Note_off 480 62 0]]\<rparr>"
  let ?ntf = "\<lambda>n::int. if n = 60 then 262 else if n = 62 then 294 else (0::int)"
  have h: "(250000::int) =
      (case tempo_changes (merged_events (tracks ?mid)) of
         [] \<Rightarrow> 500000
       | c # cs \<Rightarrow> snd (last (c # cs)))"
    by code_simp
  have e1: "extract_monophonic ?mid = Inr ([(60, 0, 480), (62, 480, 960)], 250000, 480)"
    by code_simp
  have e2: "main_notes ?ntf ?mid = Inr [(262, 250), (294, 250)]"
    by code_simp
  have e3: "ticks_to_ms (480 - 0) (Some 250000) 480 = Inr 250"
    by code_simp
  from single_tempo_for_all_deltas[OF h, of ?ntf] e1 e2 e3 show ?thesis by simp
qed

text \<open>
  Two segments separated by a tempo change: the rate in force at tick 0 is 500000, which
  makes the first segment 500 ms, but both segments are converted at 250000 and last
  250 ms.
\<close>

theorem tempo_change_not_applied_per_segment:
  "main_notes (\<lambda>n. if n = 60 then 262 else if n = 62 then 294 else 0)
     \<lparr>ticks_per_beat = 480, tracks =
       [[Note_on 0 60 100, Note_off 480 60 0, Set_tempo 0 250000,
         Note_on 0 62 100, Note_off 480 62 0]]\<rparr>
     = Inr [(262, 250), (294, 250)] \<and>
   tempo_changes (merged_events
       [[Note_on 0 60 100, Note_off 480 60 0, Set_tempo 0 250000,
         Note_on 0 62 100, Note_off 480 62 0]]) = [(480, 250000)] \<and>
   spec_rate_at [(480, 250000)] 0 = 500000 \<and>
   spec_rate_at [(480, 250000)] 480 = 250000 \<and>
   ticks_to_ms (480 - 0) (Some 500000) 480 = Inr 500 \<and>
   ticks_to_ms (960 - 480) (Some 250000) 480 = Inr 250"
  by code_simp

section \<open>Properties of the header emitter and parser\<close>

subsection \<open>Decimal numbers and the pattern\<close>

declare digits_of.simps [simp del]

lemma is_digit_digit_char: "d < 10 \<Longrightarrow> is_digit (digit_char d)"
  by (simp add: is_digit_def digit_char_def)

lemma digit_char_value: "d < 10 \<Longrightarrow> (of_char (digit_char d) :: nat) - 48 = d"
  by (simp add: digit_char_def)

lemma digits_of_digits: "\<forall>c\<in>set (digits_of n). is_digit c"
proof (induction n rule: digits_of.induct)
  case (1 n)
  show ?case
  proof (cases "n < 10")
    case True
    then show ?thesis by (simp add: digits_of.simps[of n] is_digit_digit_char)
  next
    case False
    then show ?thesis using 1 by (simp add: digits_of.simps[of n] is_digit_digit_char)
  qed
qed

lemma digits_of_nonempty: "digits_of n \<noteq> []"
  by (simp add: digits_of.simps[of n])

lemma foldl_digits_of:
  "foldl (\<lambda>a c. 10 * a + (of_char c - 48)) 0 (digits_of n) = n"
proof (induction n rule: digits_of.induct)
  case (1 n)
  show ?case
  proof (cases "n < 10")
    case True
    then show ?thesis by (simp add: digits_of.simps[of n] digit_char_value)
  next
    case False
    then have "foldl (\<lambda>a c. 10 * a + (of_char c - 48)) 0 (digits_of n) =
        10 * (n div 10) + (of_char (digit_char (n mod 10)) - 48)"
      using 1 by (simp add: digits_of.simps[of n])
    also have "\<dots> = 10 * (n div 10) + n mod 10"
      by (simp add: digit_char_value)
    finally show ?thesis by simp
  qed
qed

lemma py_int_of_digits_py_str: "0 \<le> i \<Longrightarrow> py_int_of_digits (py_str i) = i"
  by (simp add: py_int_of_digits_def py_str_def foldl_digits_of)

lemma py_str_digits: "0 \<le> i \<Longrightarrow> py_str i \<noteq> [] \<and> (\<forall>c\<in>set (py_str i). is_digit c)"
  by (simp add: py_str_def digits_of_nonempty digits_of_digits)

lemma is_digit_not_space: "is_digit c \<Longrightarrow> \<not> is_space c"
  by (simp add: is_digit_def is_space_def)

lemma is_digit_not_newline: "is_digit c \<Longrightarrow> c \<noteq> newline"
  by (auto simp: is_digit_def newline_def)

lemma takeWhile_all: "\<forall>x\<in>set xs. P x \<Longrightarrow> \<not> P y \<Longrightarrow> takeWhile P (xs @ y # ys) = xs"
  by (induction xs) simp_all

lemma dropWhile_all: "\<forall>x\<in>set xs. P x \<Longrightarrow> \<not> P y \<Longrightarrow> dropWhile P (xs @ y # ys) = y # ys"
  by (induction xs) simp_all

lemma dropWhile_none: "xs \<noteq> [] \<Longrightarrow> \<not> P (hd xs) \<Longrightarrow> dropWhile P (xs @ ys) = xs @ ys"
  by (cases xs) simp_all

lemma match_at_note:
  assumes g1: "g1 \<noteq> []" "\<forall>c\<in>set g1. is_digit c"
    and g2: "g2 \<noteq> []" "\<forall>c\<in>set g2. is_digit c"
  shows "match_at (CHR ''{'' # g1 @ CHR '','' # CHR '' '' # g2 @ CHR ''}'' # CHR '','' # rest)
     = Some (g1, g2)"
proof -
  let ?t2 = "g2 @ CHR ''}'' # CHR '','' # rest"
  let ?t1 = "g1 @ CHR '','' # CHR '' '' # ?t2"
  have s1: "\<not> is_space (hd g1)" "\<not> is_space (hd g2)"
    using g1 g2 by (simp_all add: is_digit_not_space)
  have nd: "\<not> is_digit (CHR '','')" "\<not> is_digit (CHR ''}'')" "\<not> is_space (CHR '','')"
    "\<not> is_space (CHR ''}'')" "is_space (CHR '' '')"
    by (simp_all add: is_digit_def is_space_def)
  have a: "dropWhile is_space ?t1 = ?t1"
    using dropWhile_none[of g1 is_space] g1(1) s1(1) by blast
  have b: "takeWhile is_digit ?t1 = g1"
    using takeWhile_all[of g1 is_digit] g1(2) nd(1) by blast
  have c: "dropWhile is_digit ?t1 = CHR '','' # CHR '' '' # ?t2"
    using dropWhile_all[of g1 is_digit] g1(2) nd(1) by blast
  have d: "dropWhile is_space (CHR '' '' # ?t2) = ?t2"
    using dropWhile_none[of g2 is_space "CHR ''}'' # CHR '','' # rest"] g2(1) s1(2) nd(5) by simp
  have e: "takeWhile is_digit ?t2 = g2"
    using takeWhile_all[of g2 is_digit] g2(2) nd(2) by blast
  have f: "dropWhile is_digit ?t2 = CHR ''}'' # CHR '','' # rest"
    using dropWhile_all[of g2 is_digit] g2(2) nd(2) by blast
  have c': "dropWhile is_space (CHR '','' # CHR '' '' # ?t2) = CHR '','' # CHR '' '' # ?t2"
    using nd(3) by simp
  have f': "dropWhile is_space (CHR ''}'' # CHR '','' # rest) = CHR ''}'' # CHR '','' # rest"
    using nd(4) by simp
  show ?thesis
    unfolding match_at_def
    by (simp add: a b c c' d e f f' g1(1) g2(1) Let_def del: dropWhile.simps takeWhile.simps)
qed

lemma match_at_not_brace: "c \<noteq> CHR ''{'' \<Longrightarrow> match_at (c # cs) = None"
  by (simp add: match_at_def)

lemma note_line_eq:
  assumes "0 \<le> d" "d \<le> 65535"
  shows "note_line (f, d) =
     CHR '' '' # CHR '' '' # CHR ''{'' # py_str f @ CHR '','' # CHR '' '' # py_str d @
       CHR ''}'' # CHR '','' # [newline]"
  using assms by (simp add: note_line_def Let_def)

lemma re_search_note_line:
  assumes "0 \<le> f" "0 \<le> d" "d \<le> 65535"
  shows "re_search (note_line (f, d)) = Some (py_str f, py_str d)"
proof -
  have m: "match_at (CHR ''{'' # py_str f @ CHR '','' # CHR '' '' # py_str d @
       CHR ''}'' # CHR '','' # [newline]) = Some (py_str f, py_str d)"
    using match_at_note py_str_digits[OF assms(1)] py_str_digits[OF assms(2)] by blast
  have sp: "match_at (CHR '' '' # cs) = None" for cs
    by (rule match_at_not_brace) simp
  show ?thesis
    unfolding note_line_eq[OF assms(2,3)] by (simp add: sp m)
qed

lemma parse_loop_append:
  "parse_loop acc (xs @ ys) = parse_loop (parse_loop acc xs) ys"
  by (induction xs arbitrary: acc) (auto split: option.splits)

lemma parse_loop_note_lines:
  "\<forall>x\<in>set ns. 0 \<le> fst x \<and> 0 \<le> snd x \<and> snd x \<le> 65535 \<Longrightarrow>
   parse_loop acc (map note_line ns) = acc @ ns"
proof (induction ns arbitrary: acc)
  case Nil
  then show ?case by simp
next
  case (Cons x ns)
  obtain f d where x: "x = (f, d)" by (cases x)
  from Cons.prems have v: "0 \<le> f" "0 \<le> d" "d \<le> 65535" unfolding x by simp_all
  have "parse_loop acc (map note_line (x # ns)) =
      parse_loop (acc @ [(py_int_of_digits (py_str f), py_int_of_digits (py_str d))]) (map note_line ns)"
    unfolding x by (simp add: re_search_note_line[OF v])
  also have "\<dots> = parse_loop (acc @ [(f, d)]) (map note_line ns)"
    by (simp add: py_int_of_digits_py_str v)
  also have "\<dots> = (acc @ [(f, d)]) @ ns"
    using Cons.prems by (intro Cons.IH) simp
  finally show ?case unfolding x by simp
qed

subsection \<open>Lines of the emitted file\<close>

lemma py_lines_line:
  "newline \<notin> set l \<Longrightarrow> py_lines cur (l @ newline # rest) = (cur @ l @ [newline]) # py_lines [] rest"
  by (induction l arbitrary: cur) auto

lemma py_lines_concat:
  "\<forall>l\<in>set ls. l \<noteq> [] \<and> last l = newline \<and> newline \<notin> set (butlast l) \<Longrightarrow>
   py_lines [] (concat ls @ rest) = ls @ py_lines [] rest"
proof (induction ls)
  case Nil
  then show ?case by simp
next
  case (Cons l ls)
  then have l: "l = butlast l @ [newline]" "newline \<notin> set (butlast l)"
    by (metis append_butlast_last_id list.set_intros(1), simp)
  have "py_lines [] (concat (l # ls) @ rest) =
      py_lines [] (butlast l @ newline # (concat ls @ rest))"
    using l(1) by (metis append.assoc append_Cons append_Nil concat.simps(2))
  also have "\<dots> = ([] @ butlast l @ [newline]) # py_lines [] (concat ls @ rest)"
    by (rule py_lines_line[OF l(2)])
  also have "\<dots> = l # ls @ py_lines [] rest"
    using l(1) Cons by simp
  finally show ?case by simp
qed

lemma note_line_is_line:
  assumes "0 \<le> f" "0 \<le> d" "d \<le> 65535"
  shows "note_line (f, d) \<noteq> [] \<and> last (note_line (f, d)) = newline \<and>
         newline \<notin> set (butlast (note_line (f, d)))"
proof -
  let ?body = "CHR '' '' # CHR '' '' # CHR ''{'' # py_str f @ CHR '','' # CHR '' '' # py_str d @
       [CHR ''}'', CHR '','']"
  have eq: "note_line (f, d) = ?body @ [newline]"
    unfolding note_line_eq[OF assms(2,3)] by simp
  have "newline \<notin> set (py_str f)" "newline \<notin> set (py_str d)"
    using py_str_digits[OF assms(1)] py_str_digits[OF assms(2)] is_digit_not_newline by blast+
  moreover have "newline \<noteq> CHR '' ''" "newline \<noteq> CHR ''{''" "newline \<noteq> CHR '',''"
    "newline \<noteq> CHR ''}''"
    unfolding newline_def by simp_all
  ultimately have nb: "newline \<notin> set ?body" by simp
  have "butlast (?body @ [newline]) = ?body" "last (?body @ [newline]) = newline"
    by (rule butlast_snoc, rule last_snoc)
  with nb show ?thesis unfolding eq by simp
qed

lemma parse_loop_no_match:
  "\<forall>l\<in>set ls. re_search l = None \<Longrightarrow> parse_loop acc ls = acc"
  by (induction ls arbitrary: acc) simp_all

lemma emit_header_lines:
  "emit_header ns default_guard_name =
     concat header_lines @ concat (map note_line ns) @ concat footer_lines"
  by (simp add: emit_header_def header_lines_def footer_lines_def)

lemma header_lines_are_lines:
  "\<forall>l\<in>set header_lines. l \<noteq> [] \<and> last l = newline \<and> newline \<notin> set (butlast l)"
  by code_simp

lemma footer_lines_are_lines:
  "\<forall>l\<in>set footer_lines. l \<noteq> [] \<and> last l = newline \<and> newline \<notin> set (butlast l)"
  by code_simp

lemma header_lines_no_match: "\<forall>l\<in>set header_lines. re_search l = None"
  by code_simp

lemma footer_lines_no_match: "\<forall>l\<in>set footer_lines. re_search l = None"
  by code_simp

lemma py_lines_emit_header:
  assumes "\<forall>x\<in>set ns. 0 \<le> fst x \<and> 0 \<le> snd x \<and> snd x \<le> 65535"
  shows "py_lines [] (emit_header ns default_guard_name) =
     header_lines @ map note_line ns @ footer_lines"
proof -
  have nl: "\<forall>l\<in>set (map note_line ns). l \<noteq> [] \<and> last l = newline \<and> newline \<notin> set (butlast l)"
  proof
    fix l assume "l \<in> set (map note_line ns)"
    then obtain x where x: "x \<in> set ns" "l = note_line x" by auto
    obtain f d where fd: "x = (f, d)" by (cases x)
    from assms x(1) fd have "0 \<le> f" "0 \<le> d" "d \<le> 65535" by auto
    from note_line_is_line[OF this] show "l \<noteq> [] \<and> last l = newline \<and> newline \<notin> set (butlast l)"
      unfolding x(2) fd .
  qed
  have "py_lines [] (concat footer_lines @ []) = footer_lines @ py_lines [] []"
    by (rule py_lines_concat[OF footer_lines_are_lines])
  then have f: "py_lines [] (concat footer_lines) = footer_lines" by simp
  have n: "py_lines [] (concat (map note_line ns) @ concat footer_lines) =
      map note_line ns @ footer_lines"
    using py_lines_concat[OF nl, of "concat footer_lines"] f by simp
  show ?thesis
    unfolding emit_header_lines
    using py_lines_concat[OF header_lines_are_lines,
        of "concat (map note_line ns) @ concat footer_lines"] n by simp
qed

subsection \<open>Round trip\<close>

text \<open>
  Claim C10: for every list of (freq, duration) pairs of non-negative integers with
  duration at most 65535, parsing the header that \<^verbatim>\<open>emit_header\<close> writes (with its
  default guard name) returns exactly the list, in the same order.
\<close>

theorem header_roundtrip:
  assumes "\<forall>x\<in>set ns. 0 \<le> fst x \<and> 0 \<le> snd x \<and> snd x \<le> 65535"
  shows "parse_header (emit_header ns default_guard_name) = ns"
proof -
  have "parse_header (emit_header ns default_guard_name) =
      parse_loop [] (header_lines @ map note_line ns @ footer_lines)"
    by (simp add: parse_header_def py_lines_emit_header[OF assms])
  also have "\<dots> = parse_loop (parse_loop (parse_loop [] header_lines) (map note_line ns)) footer_lines"
    by (simp add: parse_loop_append)
  also have "\<dots> = parse_loop (parse_loop [] (map note_line ns)) footer_lines"
    by (simp add: parse_loop_no_match[OF header_lines_no_match])
  also have "\<dots> = parse_loop ns footer_lines"
    using parse_loop_note_lines[OF assms, of "[]"] by simp
  also have "\<dots> = ns"
    by (rule parse_loop_no_match[OF footer_lines_no_match])
  finally show ?thesis .
qed

theorem header_roundtrip_witness:
  "parse_header (emit_header [(440, 128), (0, 64), (523, 65535)] default_guard_name)
     = [(440, 128), (0, 64), (523, 65535)]"
  using header_roundtrip[of "[(440, 128), (0, 64), (523, 65535)]"] by simp

end
